theory Spec2Isabelle
  imports Complex_Main
begin

section \<open>Python values and errors\<close>

text \<open>
  The exceptions the modelled functions can raise. A function that may raise returns
  \<open>py_error + 'a\<close>, with \<open>Inl\<close> for the exception.
\<close>

datatype py_error = ZeroDivisionError | IndexError | ValueError | OverflowError | NodeNotFound

text \<open>
  Floats are IEEE doubles. \<open>round_double x\<close> is the double nearest to the real \<open>x\<close>, ties
  to the even mantissa, with the exponent unbounded above: 53 bits of mantissa, and the
  spacing \<open>2^(e - 52)\<close> in the binade \<open>2^e \<le> |x| < 2^(e + 1)\<close>, \<open>e\<close> at least -1022
  (below that the spacing of the subnormal numbers).
\<close>

definition pow2 :: "int \<Rightarrow> real" where
  "pow2 e = (if 0 \<le> e then 2 ^ nat e else 1 / 2 ^ nat (- e))"

definition round_half_even :: "real \<Rightarrow> int" where
  "round_half_even y =
     (if y - of_int \<lfloor>y\<rfloor> < 1 / 2 then \<lfloor>y\<rfloor>
      else if 1 / 2 < y - of_int \<lfloor>y\<rfloor> then \<lfloor>y\<rfloor> + 1
      else if even \<lfloor>y\<rfloor> then \<lfloor>y\<rfloor> else \<lfloor>y\<rfloor> + 1)"

definition round_double :: "real \<Rightarrow> real" where
  "round_double x =
     (if x = 0 then 0
      else pow2 (max \<lfloor>log 2 \<bar>x\<bar>\<rfloor> (- 1022) - 52)
           * of_int (round_half_even (x / pow2 (max \<lfloor>log 2 \<bar>x\<bar>\<rfloor> (- 1022) - 52))))"

text \<open>
  \<open>a / b\<close> on two Python integers: the quotient correctly rounded to a float;
  ZeroDivisionError for a zero divisor, OverflowError when the result is too large for a
  float.
\<close>

definition py_true_div :: "int \<Rightarrow> int \<Rightarrow> py_error + real" where
  "py_true_div a b =
     (if b = 0 then Inl ZeroDivisionError
      else if pow2 1024 \<le> \<bar>round_double (real_of_int a / real_of_int b)\<bar> then Inl OverflowError
      else Inr (round_double (real_of_int a / real_of_int b)))"

text \<open>\<open>math.ceil(a / b)\<close> on two Python integers: the ceiling of the float \<open>a / b\<close>.\<close>

definition py_ceil_div :: "int \<Rightarrow> int \<Rightarrow> py_error + int" where
  "py_ceil_div a b = (case py_true_div a b of Inl e \<Rightarrow> Inl e | Inr q \<Rightarrow> Inr \<lceil>q\<rceil>)"

text \<open>\<open>int(x)\<close> and \<open>astype(int)\<close> on a float: truncation towards zero.\<close>

definition py_int :: "real \<Rightarrow> int" where
  "py_int x = (if 0 \<le> x then \<lfloor>x\<rfloor> else \<lceil>x\<rceil>)"

text \<open>Python's \<open>range(n)\<close> for an integer \<open>n\<close>: empty when \<open>n \<le> 0\<close>.\<close>

definition py_range :: "int \<Rightarrow> int list" where
  "py_range n = [0..n - 1]"

section \<open>Capacity normalisation: \<open>split_large_stops\<close> (models/routing.py)\<close>

text \<open>
  A stop identifier is the integer of a cluster, the string \<open>'school'\<close> of the depot, or
  the string \<open>f"{stop_id}_part{i+1}"\<close> that \<open>split_large_stops\<close> derives for a sibling.
\<close>

datatype stop_ident = School | Cluster int | Part stop_ident int

text \<open>A row of \<open>stop_df\<close>, with the columns \<open>create_stop_df\<close> and \<open>snap_stops_to_graph\<close> give it.\<close>

record stop =
  stop_id :: stop_ident
  original_stop_id :: stop_ident
  latitude :: real
  longitude :: real
  num_students :: int
  student_ids :: "string list"
  graph_node :: nat

text \<open>
  The inner loop \<open>for i in range(num_sub_stops)\<close>: each sibling is \<open>row.copy()\<close> with a new
  \<open>stop_id\<close> and a new \<open>num_students\<close>; every other column, \<open>student_ids\<close> included, is the
  original's.
\<close>

definition sub_stop :: "stop \<Rightarrow> int \<Rightarrow> int \<Rightarrow> int \<Rightarrow> int \<Rightarrow> stop" where
  "sub_stop row demand num_sub_stops students_per_sub_stop i =
     row\<lparr>stop_id := Part (stop_id row) (i + 1),
         num_students :=
           (if i = num_sub_stops - 1
            then demand - students_per_sub_stop * (num_sub_stops - 1)
            else students_per_sub_stop)\<rparr>"

text \<open>The body of the loop over the rows: the rows appended to \<open>new_stops\<close> for one row.\<close>

definition split_row :: "stop \<Rightarrow> int \<Rightarrow> py_error + stop list" where
  "split_row row bus_capacity =
     (let demand = num_students row in
      if demand \<le> bus_capacity then Inr [row]
      else
        (case py_ceil_div demand bus_capacity of
           Inl e \<Rightarrow> Inl e
         | Inr num_sub_stops \<Rightarrow>
             (case py_ceil_div demand num_sub_stops of
                Inl e \<Rightarrow> Inl e
              | Inr students_per_sub_stop \<Rightarrow>
                  Inr (map (sub_stop row demand num_sub_stops students_per_sub_stop)
                         (py_range num_sub_stops)))))"

text \<open>\<open>for _, row in stop_df.iterrows()\<close>, with \<open>new_stops\<close> as the accumulator.\<close>

fun split_loop :: "stop list \<Rightarrow> int \<Rightarrow> stop list \<Rightarrow> py_error + stop list" where
  "split_loop [] bus_capacity new_stops = Inr new_stops"
| "split_loop (row # rows) bus_capacity new_stops =
     (case split_row row bus_capacity of
        Inl e \<Rightarrow> Inl e
      | Inr added \<Rightarrow> split_loop rows bus_capacity (new_stops @ added))"

definition split_large_stops :: "stop list \<Rightarrow> int \<Rightarrow> py_error + stop list" where
  "split_large_stops stop_df bus_capacity = split_loop stop_df bus_capacity []"

text \<open>The stop of the scenario: one cluster of 100 riders.\<close>

definition stop_of_100 :: stop where
  "stop_of_100 =
     \<lparr>stop_id = Cluster 0, original_stop_id = Cluster 0, latitude = 40.5, longitude = -74.6,
      num_students = 100, student_ids = [], graph_node = 7\<rparr>"

text \<open>A stop whose demand, \<open>10^17 + 1\<close>, is no float.\<close>

definition stop_of_1e17_plus_1 :: stop where
  "stop_of_1e17_plus_1 =
     \<lparr>stop_id = Cluster 2, original_stop_id = Cluster 2, latitude = 40.5, longitude = -74.6,
      num_students = 100000000000000001, student_ids = [], graph_node = 7\<rparr>"

text \<open>The depot row and a stop of three riders, with the riders' identifiers.\<close>

definition school_stop :: stop where
  "school_stop =
     \<lparr>stop_id = School, original_stop_id = School, latitude = 40.496296,
      longitude = -74.654846, num_students = 0, student_ids = [], graph_node = 1\<rparr>"

definition stop_of_3 :: stop where
  "stop_of_3 =
     \<lparr>stop_id = Cluster 1, original_stop_id = Cluster 1, latitude = 40.5, longitude = -74.6,
      num_students = 3, student_ids = [''S1'', ''S2'', ''S3''], graph_node = 7\<rparr>"

section \<open>Stop clustering repair: \<open>enforce_max_distance\<close> (models/clustering.py)\<close>

text \<open>A row of \<open>df_bus\<close>: one rider, the stop assigned to it and its distance to that stop.\<close>

record rider =
  StudentID :: string
  Latitude :: real
  Longitude :: real
  assigned_stop_id :: int
  distance_to_stop_km :: real

definition coords :: "rider \<Rightarrow> real \<times> real" where
  "coords r = (Latitude r, Longitude r)"

text \<open>\<open>np.radians\<close>, on a number and on a row \<open>[lat, lon]\<close>.\<close>

definition radians :: "real \<Rightarrow> real" where
  "radians x = x * pi / 180"

definition radians_pt :: "real \<times> real \<Rightarrow> real \<times> real" where
  "radians_pt p = (radians (fst p), radians (snd p))"

text \<open>
  One entry of \<open>sklearn.metrics.pairwise.haversine_distances\<close>: the angular distance of
  two points \<open>[lat, lon]\<close> given in radians, over the reals.
\<close>

definition haversine_distances :: "real \<times> real \<Rightarrow> real \<times> real \<Rightarrow> real" where
  "haversine_distances x y =
     2 * arcsin (sqrt ((sin ((fst x - fst y) / 2))\<^sup>2
                       + cos (fst x) * cos (fst y) * (sin ((snd x - snd y) / 2))\<^sup>2))"

text \<open>The keys of \<open>new_df.groupby('assigned_stop_id')\<close>, in the order groupby yields them.\<close>

definition group_keys :: "rider list \<Rightarrow> int list" where
  "group_keys df = sort (remdups (map assigned_stop_id df))"

definition group_of :: "rider list \<Rightarrow> int \<Rightarrow> rider list" where
  "group_of df sid = filter (\<lambda>r. assigned_stop_id r = sid) df"

text \<open>\<open>Series.mean()\<close> and \<open>group[['Latitude', 'Longitude']].mean()\<close>.\<close>

definition mean :: "real list \<Rightarrow> real" where
  "mean xs = sum_list xs / real (length xs)"

definition centre :: "rider list \<Rightarrow> real \<times> real" where
  "centre grp = (mean (map Latitude grp), mean (map Longitude grp))"

text \<open>
  The first half of the loop body: \<open>stop_centers\<close> and \<open>cluster_map\<close> from the groups, then
  the column \<open>distance_to_stop_km\<close> of every row, read from the distance matrix at the row's
  position and the reindexed stop.
\<close>

definition stop_centers :: "rider list \<Rightarrow> (real \<times> real) list" where
  "stop_centers df = map (\<lambda>sid. centre (group_of df sid)) (group_keys df)"

definition cluster_map :: "rider list \<Rightarrow> int \<Rightarrow> nat option" where
  "cluster_map df = map_of (zip (group_keys df) [0..<length (group_keys df)])"

definition with_distances :: "rider list \<Rightarrow> rider list" where
  "with_distances df =
     map (\<lambda>r. r\<lparr>distance_to_stop_km :=
                  haversine_distances (radians_pt (coords r))
                    (radians_pt (stop_centers df ! the (cluster_map df (assigned_stop_id r))))
                  * 6371\<rparr>) df"

text \<open>
  \<open>Series.max()\<close> of a group's distances. A group of groupby has at least one row; the
  value on the empty list is never read.
\<close>

fun series_max :: "real list \<Rightarrow> real" where
  "series_max [] = 0"
| "series_max (x # xs) = fold max xs x"

definition group_max_distance :: "rider list \<Rightarrow> int \<Rightarrow> real" where
  "group_max_distance df sid = series_max (map distance_to_stop_km (group_of df sid))"

definition problematic_clusters :: "rider list \<Rightarrow> real \<Rightarrow> int list" where
  "problematic_clusters df max_distance_km =
     filter (\<lambda>sid. group_max_distance df sid > max_distance_km) (group_keys df)"

text \<open>
  \<open>max(2, math.ceil(group['distance_to_stop_km'].max() / max_distance_km))\<close>. The numerator
  is a numpy float: dividing it by zero gives infinity, on which \<open>math.ceil\<close> raises
  OverflowError.
\<close>

definition num_subclusters_of :: "real \<Rightarrow> real \<Rightarrow> py_error + int" where
  "num_subclusters_of group_max max_distance_km =
     (if max_distance_km = 0 then Inl OverflowError
      else Inr (max 2 \<lceil>group_max / max_distance_km\<rceil>))"

text \<open>
  \<open>KMeans(n_clusters=k, random_state=42).fit_predict(X)\<close>. The labels the library
  computes are the parameter \<open>kmeans\<close> (one label per sample); its input check is modelled:
  fewer samples than clusters raises ValueError.
\<close>

definition KMeans_fit_predict ::
  "(int \<Rightarrow> (real \<times> real) list \<Rightarrow> int list) \<Rightarrow> int \<Rightarrow> (real \<times> real) list \<Rightarrow> py_error + int list"
where
  "KMeans_fit_predict kmeans n_clusters X =
     (if int (length X) < n_clusters then Inl ValueError else Inr (kmeans n_clusters X))"

text \<open>
  \<open>for i, student_idx in enumerate(group.index): new_df.at[student_idx, 'assigned_stop_id']
  = max_existing_id + new_labels[i]\<close>: the rows of the group take the labels in order.
\<close>

fun assign_labels :: "int \<Rightarrow> int \<Rightarrow> int list \<Rightarrow> rider list \<Rightarrow> rider list" where
  "assign_labels sid max_existing_id new_labels [] = []"
| "assign_labels sid max_existing_id new_labels (r # rs) =
     (if assigned_stop_id r = sid then
        (case new_labels of
           [] \<Rightarrow> r # assign_labels sid max_existing_id [] rs
         | l # ls \<Rightarrow>
             r\<lparr>assigned_stop_id := max_existing_id + l\<rparr> # assign_labels sid max_existing_id ls rs)
      else r # assign_labels sid max_existing_id new_labels rs)"

text \<open>\<open>for stop_id in problematic_clusters\<close>, with \<open>max_existing_id\<close> and \<open>new_df\<close> as state.\<close>

fun split_clusters ::
  "(int \<Rightarrow> (real \<times> real) list \<Rightarrow> int list) \<Rightarrow> real \<Rightarrow> int list \<Rightarrow> int \<Rightarrow> rider list
     \<Rightarrow> py_error + rider list"
where
  "split_clusters kmeans max_distance_km [] max_existing_id new_df = Inr new_df"
| "split_clusters kmeans max_distance_km (sid # rest) max_existing_id new_df =
     (let grp = group_of new_df sid in
      case num_subclusters_of (series_max (map distance_to_stop_km grp)) max_distance_km of
        Inl e \<Rightarrow> Inl e
      | Inr num_subclusters \<Rightarrow>
          (case KMeans_fit_predict kmeans num_subclusters (map coords grp) of
             Inl e \<Rightarrow> Inl e
           | Inr new_labels \<Rightarrow>
               split_clusters kmeans max_distance_km rest (max_existing_id + num_subclusters)
                 (assign_labels sid max_existing_id new_labels new_df)))"

text \<open>\<open>new_df['assigned_stop_id'].max()\<close>.\<close>

definition max_stop_id :: "rider list \<Rightarrow> int" where
  "max_stop_id df = (case map assigned_stop_id df of [] \<Rightarrow> 0 | x # xs \<Rightarrow> fold max xs x)"

text \<open>
  The loop \<open>while True\<close>. It may run forever, so it is a partial function: \<open>None\<close> is
  "does not return". On a dataframe without rows \<open>haversine_distances\<close> raises ValueError
  (its input check wants at least one sample).
\<close>

partial_function (option) enforce_loop ::
  "(int \<Rightarrow> (real \<times> real) list \<Rightarrow> int list) \<Rightarrow> real \<Rightarrow> rider list \<Rightarrow> (py_error + rider list) option"
where
  "enforce_loop kmeans max_distance_km new_df =
     (if new_df = [] then Some (Inl ValueError)
      else if problematic_clusters (with_distances new_df) max_distance_km = []
      then Some (Inr (with_distances new_df))
      else
        (case split_clusters kmeans max_distance_km
                (problematic_clusters (with_distances new_df) max_distance_km)
                (max_stop_id (with_distances new_df) + 1) (with_distances new_df) of
           Inl e \<Rightarrow> Some (Inl e)
         | Inr df2 \<Rightarrow> enforce_loop kmeans max_distance_km df2))"

definition enforce_max_distance ::
  "(int \<Rightarrow> (real \<times> real) list \<Rightarrow> int list) \<Rightarrow> rider list \<Rightarrow> real \<Rightarrow> (py_error + rider list) option"
where
  "enforce_max_distance kmeans df_bus max_distance_km = enforce_loop kmeans max_distance_km df_bus"

text \<open>Two riders one degree of latitude apart, both assigned to stop 0.\<close>

definition two_far_riders :: "rider list" where
  "two_far_riders =
     [\<lparr>StudentID = ''S1'', Latitude = 0, Longitude = 0, assigned_stop_id = 0,
       distance_to_stop_km = 0\<rparr>,
      \<lparr>StudentID = ''S2'', Latitude = 1, Longitude = 0, assigned_stop_id = 0,
       distance_to_stop_km = 0\<rparr>]"

text \<open>
  The distance the loop body writes for a rider: from its home to the centroid of the
  group it is assigned to, in kilometres.
\<close>

definition dist_to_centre :: "rider list \<Rightarrow> rider \<Rightarrow> real" where
  "dist_to_centre df r =
     haversine_distances (radians_pt (coords r))
       (radians_pt (centre (group_of df (assigned_stop_id r)))) * 6371"


section \<open>Road-graph distances: \<open>build_distance_matrix\<close> (models/routing.py)\<close>

text \<open>
  The road graph as networkx holds it: the nodes, and the adjacency entries
  \<open>(u, v, length)\<close>, \<open>v\<close> a successor of \<open>u\<close>. An undirected graph holds every edge in both
  directions.
\<close>

record road_graph =
  nodes :: "nat list"
  arcs :: "(nat \<times> nat \<times> real) list"

text \<open>
  The graphs networkx builds: the ends of every edge are nodes of the graph; and, as
  Dijkstra's algorithm asks, no length is negative.
\<close>

definition graph_ok :: "road_graph \<Rightarrow> bool" where
  "graph_ok G =
     list_all (\<lambda>(u, v, w). u \<in> set (nodes G) \<and> v \<in> set (nodes G) \<and> 0 \<le> w) (arcs G)"


text \<open>
  The library call \<open>nx.single_source_dijkstra_path_length(G, source, weight='length')\<close> is
  modelled by what it returns: a dict from every node reachable from the source to the
  length of a shortest path, and NodeNotFound for a source that is no node of \<open>G\<close>.
  The lengths are computed by rounds of relaxation: an absent key is \<open>None\<close>, and after
  round \<open>k\<close> the entry of \<open>t\<close> is the least length of a walk of at most \<open>k\<close> edges to \<open>t\<close>.
  As many rounds as the graph has nodes give the least length of all walks
  (\<open>single_source_dijkstra_path_length_least\<close> below).
\<close>

fun opt_min :: "real option \<Rightarrow> real option \<Rightarrow> real option" where
  "opt_min None y = y"
| "opt_min (Some a) None = Some a"
| "opt_min (Some a) (Some b) = Some (min a b)"

fun relax :: "(nat \<times> nat \<times> real) list \<Rightarrow> (nat \<Rightarrow> real option) \<Rightarrow> nat \<Rightarrow> real option" where
  "relax [] d t = d t"
| "relax ((u, v, w) # A) d t =
     (if v = t then opt_min (map_option (\<lambda>x. x + w) (d u)) (relax A d t) else relax A d t)"

primrec sp_rounds :: "(nat \<times> nat \<times> real) list \<Rightarrow> nat \<Rightarrow> nat \<Rightarrow> nat \<Rightarrow> real option" where
  "sp_rounds A s 0 = (\<lambda>t. if t = s then Some 0 else None)"
| "sp_rounds A s (Suc k) = relax A (sp_rounds A s k)"

definition single_source_dijkstra_path_length ::
  "road_graph \<Rightarrow> nat \<Rightarrow> py_error + (nat \<Rightarrow> real option)"
where
  "single_source_dijkstra_path_length G source =
     (if source \<in> set (nodes G) then Inr (sp_rounds (arcs G) source (length (nodes G)))
      else Inl NodeNotFound)"

text \<open>
  A cell of the float matrix. \<open>np.nan_to_num(dist_matrix, nan=1e6, posinf=1e6, neginf=1e6)\<close>
  replaces the three values that are no number and keeps every other cell.
\<close>

datatype np_float = Finite real | NaN | PosInf | NegInf

fun nan_to_num :: "np_float \<Rightarrow> real" where
  "nan_to_num (Finite x) = x"
| "nan_to_num NaN = 1000000"
| "nan_to_num PosInf = 1000000"
| "nan_to_num NegInf = 1000000"

text \<open>
  Row \<open>i\<close> of the matrix after the loop. It starts as a row of \<open>np.zeros\<close>; when the
  shortest-path call raises, \<open>except Exception: continue\<close> leaves it so; otherwise the cell
  of every target that is a key of \<open>distances\<close> is overwritten, and no other cell.
\<close>

definition matrix_row :: "road_graph \<Rightarrow> nat list \<Rightarrow> nat \<Rightarrow> np_float list" where
  "matrix_row G stop_nodes source_node =
     (case single_source_dijkstra_path_length G source_node of
        Inl e \<Rightarrow> map (\<lambda>target_node. Finite 0) stop_nodes
      | Inr distances \<Rightarrow>
          map (\<lambda>target_node.
                 (case distances target_node of
                    Some d \<Rightarrow> Finite d
                  | None \<Rightarrow> Finite 0)) stop_nodes)"

definition build_distance_matrix :: "road_graph \<Rightarrow> nat list \<Rightarrow> int list list" where
  "build_distance_matrix G stop_nodes =
     map (\<lambda>source_node. map (\<lambda>c. py_int (nan_to_num c)) (matrix_row G stop_nodes source_node))
       stop_nodes"

text \<open>Walks of at most \<open>k\<close> edges and their lengths, to reason about \<open>sp_rounds\<close>.\<close>

inductive walk :: "(nat \<times> nat \<times> real) list \<Rightarrow> nat \<Rightarrow> nat \<Rightarrow> nat \<Rightarrow> real \<Rightarrow> bool" where
  walk_here: "walk A k s s 0"
| walk_wait: "walk A k s t c \<Longrightarrow> walk A (Suc k) s t c"
| walk_step: "walk A k s u c \<Longrightarrow> (u, t, w) \<in> set A \<Longrightarrow> walk A (Suc k) s t (c + w)"

text \<open>
  A walk with the nodes it visits after the start, in order, to cut the cycles out of it.
\<close>

inductive trail :: "(nat \<times> nat \<times> real) list \<Rightarrow> nat \<Rightarrow> nat list \<Rightarrow> nat \<Rightarrow> real \<Rightarrow> bool" where
  trail_here: "trail A s [] s 0"
| trail_step: "trail A s vs u c \<Longrightarrow> (u, t, w) \<in> set A \<Longrightarrow> trail A s (vs @ [t]) t (c + w)"

text \<open>Two stops on nodes that no road joins.\<close>

definition two_islands :: road_graph where
  "two_islands = \<lparr>nodes = [1, 2], arcs = []\<rparr>"



section \<open>Fleet routing: \<open>solve_vrp_with_fleet_limit\<close> (models/routing.py)\<close>



text \<open>The lines the function prints.\<close>

datatype message =
    WarningNeedAtLeast int int
  | ConsiderIncreasing
  | ProceedingWith int
  | AttemptingWith int
  | FoundSolutionWith int
  | NearOptimalStopping
  | NoSolutionFoundWith int
  | OverloadedBuses nat
  | UnderutilizedBuses nat
  | OptimizationFailed

datatype plan_status = Optimal | Good

record metrics =
  buses_requested :: int
  buses_used :: int
  theoretical_minimum :: int
  efficiency_gain :: real
  total_students :: int
  bus_loads :: "int list"
  avg_load :: real
  overloaded_buses :: "nat list"
  underutilized_buses :: "nat list"
  status :: plan_status

record vrp_result =
  routes :: "nat list list"
  vrp_metrics :: "metrics option"
  printed :: "message list"

text \<open>
  \<open>sum(demands[i] for i in route if i != depot_index)\<close>; a node past the end of \<open>demands\<close>
  raises IndexError.
\<close>

fun route_load :: "int list \<Rightarrow> nat \<Rightarrow> nat list \<Rightarrow> py_error + int" where
  "route_load demands depot_index [] = Inr 0"
| "route_load demands depot_index (i # route) =
     (if i = depot_index then route_load demands depot_index route
      else if i < length demands then
        (case route_load demands depot_index route of
           Inl e \<Rightarrow> Inl e
         | Inr s \<Rightarrow> Inr (demands ! i + s))
      else Inl IndexError)"

text \<open>
  \<open>for vehicle_id in range(num_vehicles)\<close> over the routes read off the solution: a route
  is kept when its load is positive.
\<close>

fun used_routes :: "int list \<Rightarrow> nat \<Rightarrow> nat list list \<Rightarrow> py_error + nat list list" where
  "used_routes demands depot_index [] = Inr []"
| "used_routes demands depot_index (route # others) =
     (case route_load demands depot_index route of
        Inl e \<Rightarrow> Inl e
      | Inr load \<Rightarrow>
          (case used_routes demands depot_index others of
             Inl e \<Rightarrow> Inl e
           | Inr kept \<Rightarrow> Inr (if load > 0 then route # kept else kept)))"

text \<open>\<open>[sum(demands[i] for i in route if i != depot_index) for route in best_routes]\<close>.\<close>

fun loads_of :: "int list \<Rightarrow> nat \<Rightarrow> nat list list \<Rightarrow> py_error + int list" where
  "loads_of demands depot_index [] = Inr []"
| "loads_of demands depot_index (route # others) =
     (case route_load demands depot_index route of
        Inl e \<Rightarrow> Inl e
      | Inr l \<Rightarrow>
          (case loads_of demands depot_index others of
             Inl e \<Rightarrow> Inl e
           | Inr ls \<Rightarrow> Inr (l # ls)))"

text \<open>
  The search loop \<open>for num_vehicles in range(max(theoretical_min_buses, min_buses),
  max_buses + 1)\<close>. \<open>solve num_vehicles\<close> stands for building the routing model and calling
  the solver: \<open>None\<close> when it finds no solution, otherwise the node sequence of every vehicle.
  The state is \<open>best_routes\<close>, \<open>best_num_buses\<close> and the lines printed so far.
\<close>

fun search ::
  "(int \<Rightarrow> nat list list option) \<Rightarrow> int list \<Rightarrow> nat \<Rightarrow> int \<Rightarrow> int list
     \<Rightarrow> nat list list \<Rightarrow> int \<Rightarrow> message list
     \<Rightarrow> py_error + (nat list list \<times> int \<times> message list)"
where
  "search solve demands depot_index theoretical_min_buses [] best_routes best_num_buses out =
     Inr (best_routes, best_num_buses, out)"
| "search solve demands depot_index theoretical_min_buses (num_vehicles # others)
       best_routes best_num_buses out =
     (case solve num_vehicles of
        None \<Rightarrow>
          search solve demands depot_index theoretical_min_buses others best_routes best_num_buses
            (out @ [AttemptingWith num_vehicles, NoSolutionFoundWith num_vehicles])
      | Some solution \<Rightarrow>
          (case used_routes demands depot_index solution of
             Inl e \<Rightarrow> Inl e
           | Inr rs \<Rightarrow>
               (let buses_used = int (length rs);
                    out1 = out @ [AttemptingWith num_vehicles, FoundSolutionWith buses_used]
                in
                if buses_used < best_num_buses then
                  (if buses_used \<le> theoretical_min_buses + 2
                   then Inr (rs, buses_used, out1 @ [NearOptimalStopping])
                   else search solve demands depot_index theoretical_min_buses others
                          rs buses_used out1)
                else search solve demands depot_index theoretical_min_buses others
                       best_routes best_num_buses out1)))"

text \<open>\<open>[i for i, load in enumerate(bus_loads) if p(load)]\<close>.\<close>

definition indices_where :: "(int \<Rightarrow> bool) \<Rightarrow> int list \<Rightarrow> nat list" where
  "indices_where p loads = filter (\<lambda>i. p (loads ! i)) [0..<length loads]"

text \<open>The metrics and the last prints, for a non-empty \<open>best_routes\<close>.\<close>

definition prepare_metrics ::
  "int list \<Rightarrow> int \<Rightarrow> nat \<Rightarrow> int \<Rightarrow> int \<Rightarrow> int \<Rightarrow> nat list list \<Rightarrow> int \<Rightarrow> message list
     \<Rightarrow> py_error + vrp_result"
where
  "prepare_metrics demands capacity depot_index max_buses theoretical_min_buses total_demand
       best_routes best_num_buses out =
     (case loads_of demands depot_index best_routes of
        Inl e \<Rightarrow> Inl e
      | Inr loads \<Rightarrow>
          (let overloaded = indices_where (\<lambda>load. load > capacity) loads;
               underutilized =
                 indices_where (\<lambda>load. real_of_int load < real_of_int capacity * 0.5) loads
           in Inr \<lparr>routes = best_routes,
                   vrp_metrics = Some
                     \<lparr>buses_requested = max_buses,
                      buses_used = best_num_buses,
                      theoretical_minimum = theoretical_min_buses,
                      efficiency_gain =
                        real_of_int (max_buses - best_num_buses) / real_of_int max_buses * 100,
                      total_students = total_demand,
                      bus_loads = loads,
                      avg_load = real_of_int (sum_list loads) / real (length loads),
                      overloaded_buses = overloaded,
                      underutilized_buses = underutilized,
                      status =
                        (if best_num_buses = theoretical_min_buses then Optimal else Good)\<rparr>,
                   printed =
                     out @ (if overloaded \<noteq> [] then [OverloadedBuses (length overloaded)] else [])
                         @ (if underutilized \<noteq> [] then [UnderutilizedBuses (length underutilized)]
                            else [])\<rparr>))"

text \<open>
  The function. \<open>solver\<close> is the routing library: given the instance and a number of
  vehicles it returns the vehicles' node sequences, or \<open>None\<close>. \<open>min_buses\<close> is optional.
\<close>

definition solve_vrp_with_fleet_limit ::
  "(real list list \<Rightarrow> int list \<Rightarrow> int \<Rightarrow> nat \<Rightarrow> int \<Rightarrow> nat list list option)
     \<Rightarrow> real list list \<Rightarrow> int list \<Rightarrow> int list \<Rightarrow> nat \<Rightarrow> int \<Rightarrow> int option
     \<Rightarrow> py_error + vrp_result"
where
  "solve_vrp_with_fleet_limit solver dist_matrix demands vehicle_capacities depot_index
       max_buses min_buses_arg =
     (let min_buses = (case min_buses_arg of None \<Rightarrow> max 1 (max_buses div 2) | Some m \<Rightarrow> m);
          total_demand = sum_list demands
      in
      case vehicle_capacities of
        [] \<Rightarrow> Inl IndexError
      | capacity # _ \<Rightarrow>
          (case py_ceil_div total_demand capacity of
             Inl e \<Rightarrow> Inl e
           | Inr theoretical_min_buses \<Rightarrow>
               (case search (solver dist_matrix demands capacity depot_index) demands depot_index
                       theoretical_min_buses
                       [max theoretical_min_buses min_buses..max_buses] [] max_buses
                       (if theoretical_min_buses > max_buses
                        then [WarningNeedAtLeast theoretical_min_buses max_buses,
                              ConsiderIncreasing, ProceedingWith max_buses]
                        else []) of
                  Inl e \<Rightarrow> Inl e
                | Inr (best_routes, best_num_buses, out) \<Rightarrow>
                    (if best_routes \<noteq> []
                     then prepare_metrics demands capacity depot_index max_buses
                            theoretical_min_buses total_demand best_routes best_num_buses out
                     else Inr \<lparr>routes = [], vrp_metrics = None,
                               printed = out @ [OptimizationFailed]\<rparr>))))"

text \<open>A solver that, asked for any fleet, sends one bus from the depot to stop 1 and back.\<close>

definition one_bus_solver ::
  "real list list \<Rightarrow> int list \<Rightarrow> int \<Rightarrow> nat \<Rightarrow> int \<Rightarrow> nat list list option"
where
  "one_bus_solver dist_matrix demands capacity depot_index num_vehicles = Some [[0, 1, 0]]"

section \<open>Properties of the float arithmetic\<close>

lemma pow2_powr: "pow2 e = 2 powr (real_of_int e)"
  unfolding pow2_def by (simp add: powr_real_of_int inverse_eq_divide)

lemma pow2_pos: "0 < pow2 e"
  by (simp add: pow2_powr)

lemma pow2_add: "pow2 (a + b) = pow2 a * pow2 b"
  by (simp add: pow2_powr powr_add)

lemma pow2_mono: "a \<le> b \<Longrightarrow> pow2 a \<le> pow2 b"
  by (simp add: pow2_powr)

lemma pow2_nat: "pow2 (int n) = 2 ^ n"
  by (simp add: pow2_def)

lemma round_half_even_err: "\<bar>of_int (round_half_even y) - y\<bar> \<le> 1 / 2"
proof -
  have "of_int \<lfloor>y\<rfloor> \<le> y" "y < of_int \<lfloor>y\<rfloor> + 1" by linarith+
  then show ?thesis unfolding round_half_even_def by (auto simp: abs_le_iff)
qed

lemma round_half_even_int: "round_half_even (of_int m) = m"
  by (simp add: round_half_even_def)

lemma binade:
  assumes "0 < x"
  shows "pow2 \<lfloor>log 2 x\<rfloor> \<le> x" "x < pow2 (\<lfloor>log 2 x\<rfloor> + 1)"
proof -
  have "2 powr (real_of_int \<lfloor>log 2 x\<rfloor>) \<le> x \<and> x < 2 powr (real_of_int (\<lfloor>log 2 x\<rfloor> + 1))"
    using floor_log_eq_powr_iff[of x 2 "\<lfloor>log 2 x\<rfloor>"] assms by simp
  then show "pow2 \<lfloor>log 2 x\<rfloor> \<le> x" "x < pow2 (\<lfloor>log 2 x\<rfloor> + 1)"
    by (simp_all add: pow2_powr)
qed

lemma binade_eq:
  assumes "0 < x" "pow2 e \<le> x" "x < pow2 (e + 1)"
  shows "\<lfloor>log 2 x\<rfloor> = e"
  using floor_log_eq_powr_iff[of x 2 e] assms by (simp add: pow2_powr)

lemma round_double_eval:
  assumes "0 < x" "pow2 e \<le> x" "x < pow2 (e + 1)" "- 1022 \<le> e"
  shows "round_double x = pow2 (e - 52) * of_int (round_half_even (x / pow2 (e - 52)))"
proof -
  have "\<lfloor>log 2 \<bar>x\<bar>\<rfloor> = e" using binade_eq[OF assms(1-3)] assms(1) by simp
  then show ?thesis using assms(1,4) by (simp add: round_double_def max_def)
qed


lemma pow2_half: "pow2 (e - 52) * (1 / 2) = pow2 (e - 53)"
proof -
  have "pow2 (e - 52) = pow2 ((e - 53) + 1)" by simp
  also have "\<dots> = pow2 (e - 53) * pow2 1" by (rule pow2_add)
  also have "pow2 1 = 2" by (simp add: pow2_def)
  finally show ?thesis by simp
qed

lemma scaled_err:
  fixes u r x :: real
  assumes "0 < u" "\<bar>r - x / u\<bar> \<le> 1 / 2"
  shows "\<bar>u * r - x\<bar> \<le> u * (1 / 2)"
proof -
  have "u * r - x = u * (r - x / u)"
    using assms(1) by (simp add: right_diff_distrib)
  then have "\<bar>u * r - x\<bar> = u * \<bar>r - x / u\<bar>"
    using assms(1) by (simp add: abs_mult)
  also have "\<dots> \<le> u * (1 / 2)"
    using assms by (intro mult_left_mono) simp_all
  finally show ?thesis .
qed

lemma round_double_err:
  assumes "0 < x" "pow2 e \<le> x" "x < pow2 (e + 1)" "- 1022 \<le> e"
  shows "\<bar>round_double x - x\<bar> \<le> pow2 (e - 53)"
proof -
  have "\<bar>pow2 (e - 52) * of_int (round_half_even (x / pow2 (e - 52))) - x\<bar>
          \<le> pow2 (e - 52) * (1 / 2)"
    using pow2_pos round_half_even_err by (rule scaled_err)
  then show ?thesis
    by (simp only: round_double_eval[OF assms] pow2_half)
qed

lemma pow2_inverse: "1 / pow2 e = pow2 (- e)"
proof -
  have "pow2 e * pow2 (- e) = pow2 (e + - e)" by (rule pow2_add[symmetric])
  then have "pow2 e * pow2 (- e) = 1" by (simp add: pow2_def)
  then show ?thesis using pow2_pos[of e] by (simp add: field_simps)
qed

lemma pow2_less_cancel: "pow2 a < pow2 b \<Longrightarrow> a < b"
  by (simp add: pow2_powr)

lemma pow2_le_cancel: "pow2 a \<le> pow2 b \<Longrightarrow> a \<le> b"
  by (simp add: pow2_powr)

lemma round_double_of_int:
  assumes "0 < m" "m \<le> 2 ^ 53"
  shows "round_double (of_int m) = of_int m"
proof -
  define x where "x = real_of_int m"
  define e where "e = \<lfloor>log 2 x\<rfloor>"
  have x: "0 < x" "1 \<le> x" "x \<le> 2 ^ 53" using assms by (simp_all add: x_def)
  have lo: "pow2 e \<le> x" and hi: "x < pow2 (e + 1)"
    unfolding e_def using binade[OF x(1)] by simp_all
  have "pow2 0 \<le> x" using x(2) by (simp add: pow2_def)
  then have "pow2 0 < pow2 (e + 1)" using hi by simp
  then have e0: "0 \<le> e" using pow2_less_cancel[of 0 "e + 1"] by simp
  have p53: "pow2 53 = 2 ^ 53" by (simp add: pow2_def)
  have "pow2 e \<le> pow2 53" using lo x(3) p53 by linarith
  then have e53: "e \<le> 53" by (rule pow2_le_cancel)
  have int: "\<exists>k::int. x / pow2 (e - 52) = of_int k"
  proof (cases "e \<le> 52")
    case True
    have inv: "1 / pow2 (e - 52) = pow2 (52 - e)"
      using pow2_inverse[of "e - 52"] by simp
    have "x / pow2 (e - 52) = x * (1 / pow2 (e - 52))" by simp
    also have "\<dots> = x * pow2 (52 - e)" by (simp only: inv)
    also have "\<dots> = of_int (m * 2 ^ nat (52 - e))"
      using True by (simp add: pow2_def x_def)
    finally show ?thesis by blast
  next
    case False
    then have e: "e = 53" using e53 by simp
    then have "x = 2 ^ 53" using lo x(3) by (simp add: pow2_def)
    then have "x / pow2 (e - 52) = of_int (2 ^ 52)" using e by (simp add: pow2_def)
    then show ?thesis by blast
  qed
  then obtain k :: int where k: "x / pow2 (e - 52) = of_int k" by blast
  have "round_double x = pow2 (e - 52) * of_int (round_half_even (x / pow2 (e - 52)))"
    using x(1) lo hi e0 by (intro round_double_eval) simp_all
  also have "\<dots> = pow2 (e - 52) * (x / pow2 (e - 52))"
    by (simp only: k round_half_even_int)
  also have "\<dots> = x" using pow2_pos[of "e - 52"] by simp
  finally show ?thesis by (simp add: x_def)
qed

lemma round_double_quotient:
  assumes b: "0 < b" "b < 2 ^ 53" and a: "0 \<le> a" "a < 2 ^ 53"
  shows "\<lceil>round_double (real_of_int a / real_of_int b)\<rceil> = \<lceil>real_of_int a / real_of_int b\<rceil> \<and>
         \<bar>round_double (real_of_int a / real_of_int b)\<bar> \<le> 2 ^ 53"
proof (cases "a = 0")
  case True
  then show ?thesis by (simp add: round_double_def)
next
  case False
  then have a0: "0 < a" using a by simp
  define x where "x = real_of_int a / real_of_int b"
  define q where "q = a div b"
  define r where "r = a mod b"
  define e where "e = \<lfloor>log 2 x\<rfloor>"
  have x0: "0 < x" using a0 b by (simp add: x_def)
  have xq: "x = of_int q + of_int r / of_int b"
    using b by (simp add: x_def q_def r_def field_simps of_int_add[symmetric] of_int_mult[symmetric]
        del: of_int_add of_int_mult)
  have r: "0 \<le> r" "r < b" using b by (simp_all add: r_def)
  have q0: "0 \<le> q" using a b by (simp add: q_def pos_imp_zdiv_nonneg_iff)
  have qa: "q \<le> a"
  proof -
    have "a = b * q + r" by (simp add: q_def r_def)
    moreover have "q * 1 \<le> q * b" using q0 b(1) by (intro mult_left_mono) simp_all
    ultimately show ?thesis using r(1) by (simp add: mult.commute)
  qed
  show ?thesis
  proof (cases "r = 0")
    case True
    then have xi: "x = of_int q" using xq by simp
    then have "0 < q" using x0 by simp
    moreover have "q \<le> 2 ^ 53" using qa a by simp
    ultimately have "round_double (of_int q) = of_int q" by (rule round_double_of_int)
    then have "round_double x = x" using xi by simp
    moreover have "\<bar>x\<bar> \<le> 2 ^ 53" using xi q0 \<open>q \<le> 2 ^ 53\<close> by simp
    ultimately show ?thesis by (simp add: x_def)
  next
    case False
    then have r1: "1 \<le> r" "r \<le> b - 1" using r by simp_all
    have lo: "pow2 e \<le> x" and hi: "x < pow2 (e + 1)"
      unfolding e_def using binade[OF x0] by simp_all
    have bx: "1 / of_int b \<le> x"
    proof -
      have "1 \<le> real_of_int a" using a0 by simp
      then show ?thesis using b by (simp add: x_def divide_right_mono)
    qed
    have "pow2 (- 53) < 1 / real_of_int b"
    proof -
      have "real_of_int b < 2 ^ 53" using b(2) by (metis of_int_less_iff of_int_numeral of_int_power)
      then have "1 / 2 ^ 53 < 1 / real_of_int b" using b(1) by (simp add: frac_less2)
      then show ?thesis by (simp add: pow2_def)
    qed
    then have "pow2 (- 53) < pow2 (e + 1)" using bx hi by simp
    then have e_lo: "- 1022 \<le> e" using pow2_less_cancel[of "- 53" "e + 1"] by simp
    have err: "\<bar>round_double x - x\<bar> \<le> pow2 (e - 53)"
      using x0 lo hi e_lo by (rule round_double_err)
    have "pow2 (e - 53) = pow2 e * pow2 (- 53)"
      using pow2_add[of e "- 53"] by simp
    also have "\<dots> \<le> x * pow2 (- 53)"
      using lo pow2_pos[of "- 53"] by (simp add: mult_right_mono)
    also have "\<dots> < 1 / of_int b"
    proof -
      define t where "t = real_of_int a / 2 ^ 53"
      define ib where "ib = 1 / real_of_int b"
      have ib: "0 < ib" using b(1) by (simp add: ib_def)
      have "real_of_int a < 2 ^ 53" using a(2) by (metis of_int_less_iff of_int_numeral of_int_power)
      then have "t < 1" by (simp add: t_def)
      then have "t * ib < 1 * ib" using ib by (rule mult_strict_right_mono)
      moreover have "x * pow2 (- 53) = t * ib" by (simp add: x_def pow2_def t_def ib_def)
      ultimately show ?thesis by (simp add: ib_def)
    qed
    finally have small: "pow2 (e - 53) < 1 / of_int b" .
    have xlo: "of_int q + 1 / of_int b \<le> x"
      using r1(1) b(1) by (simp add: xq divide_right_mono)
    have xhi: "x \<le> of_int q + 1 - 1 / of_int b"
    proof -
      have "real_of_int r \<le> real_of_int b - 1" using r1(2) by linarith
      then have "real_of_int r / real_of_int b \<le> (real_of_int b - 1) / real_of_int b"
        using b(1) by (simp add: divide_right_mono)
      also have "\<dots> = 1 - 1 / real_of_int b" using b(1) by (simp add: field_simps)
      finally show ?thesis by (simp add: xq)
    qed
    have rlo: "of_int q < round_double x" using err small xlo by (simp add: abs_le_iff)
    have rhi: "round_double x < of_int q + 1" using err small xhi by (simp add: abs_le_iff)
    have c1: "\<lceil>round_double x\<rceil> = q + 1"
      using rlo rhi by (intro ceiling_unique) simp_all
    have "of_int q < x" "x \<le> of_int q + 1"
      using xlo xhi b(1) by (simp_all add: less_le_trans[OF _ xlo] order_trans[OF xhi])
    then have c2: "\<lceil>x\<rceil> = q + 1" by (intro ceiling_unique) simp_all
    have "\<bar>round_double x\<bar> \<le> 2 ^ 53"
    proof -
      have "0 < round_double x" using rlo q0 by simp
      moreover have "round_double x < of_int (q + 1)" using rhi by simp
      moreover have "of_int (q + 1) \<le> (2::real) ^ 53"
      proof -
        have "q + 1 \<le> 2 ^ 53" using qa a(2) by simp
        then show ?thesis by (metis of_int_le_iff of_int_numeral of_int_power)
      qed
      ultimately show ?thesis by simp
    qed
    then show ?thesis using c1 c2 by (simp add: x_def)
  qed
qed

lemma pow2_1024_big: "(2::real) ^ 64 < pow2 1024"
proof -
  have "pow2 64 \<le> pow2 1023" by (rule pow2_mono) simp
  moreover have "pow2 1023 < pow2 1024" by (simp add: pow2_powr)
  moreover have "pow2 64 = 2 ^ 64" by (simp add: pow2_def)
  ultimately show ?thesis by linarith
qed

lemma py_ceil_div_exact:
  assumes "0 < b" "b < 2 ^ 53" "0 \<le> a" "a < 2 ^ 53"
  shows "py_ceil_div a b = Inr \<lceil>real_of_int a / real_of_int b\<rceil>"
proof -
  have r: "\<lceil>round_double (real_of_int a / real_of_int b)\<rceil> = \<lceil>real_of_int a / real_of_int b\<rceil>"
    and s: "\<bar>round_double (real_of_int a / real_of_int b)\<bar> \<le> 2 ^ 53"
    using round_double_quotient[OF assms] by simp_all
  have "\<not> pow2 1024 \<le> \<bar>round_double (real_of_int a / real_of_int b)\<bar>"
  proof -
    have "(2::real) ^ 53 \<le> 2 ^ 64" by simp
    then show ?thesis using s pow2_1024_big by linarith
  qed
  then show ?thesis using assms(1) r by (simp add: py_ceil_div_def py_true_div_def)
qed

lemma py_ceil_div_eq:
  assumes "0 < b" "b < 2 ^ 53" "0 \<le> a" "a < 2 ^ 53"
  shows "py_ceil_div a b = Inr (- ((- a) div b))"
  using py_ceil_div_exact[OF assms] by (simp add: ceiling_divide_eq_div)

lemma round_double_just_above_one:
  "round_double (100000000000000001 / 100000000000000000) = 1"
proof -
  define x :: real where "x = 100000000000000001 / 100000000000000000"
  have "round_double x = pow2 (0 - 52) * of_int (round_half_even (x / pow2 (0 - 52)))"
    by (rule round_double_eval) (simp_all add: x_def pow2_def)
  also have "x / pow2 (0 - 52) = 4503599627370496 * 100000000000000001 / 100000000000000000"
    by (simp add: x_def pow2_def)
  also have "round_half_even (4503599627370496 * 100000000000000001 / 100000000000000000)
      = 4503599627370496"
    by (simp add: round_half_even_def)
  finally show ?thesis by (simp add: x_def pow2_def)
qed

lemma round_double_1e17_plus_1:
  "round_double 100000000000000001 = 100000000000000000"
proof -
  define x :: real where "x = 100000000000000001"
  have "round_double x = pow2 (56 - 52) * of_int (round_half_even (x / pow2 (56 - 52)))"
    by (rule round_double_eval) (simp_all add: x_def pow2_def)
  also have "x / pow2 (56 - 52) = 100000000000000001 / 16"
    by (simp add: x_def pow2_def)
  also have "round_half_even (100000000000000001 / 16) = 6250000000000000"
    by (simp add: round_half_even_def)
  finally show ?thesis by (simp add: x_def pow2_def)
qed

lemma py_ceil_div_just_above_one:
  "py_ceil_div 100000000000000001 100000000000000000 = Inr 1"
  using pow2_1024_big
  by (simp add: py_ceil_div_def py_true_div_def round_double_just_above_one)

lemma py_ceil_div_1e17_plus_1:
  "py_ceil_div 100000000000000001 1 = Inr 100000000000000000"
  using pow2_1024_big
  by (simp add: py_ceil_div_def py_true_div_def round_double_1e17_plus_1)

section \<open>Properties of the capacity normalisation\<close>

lemma split_row_100_40:
  "split_row stop_of_100 40 =
     Inr [stop_of_100\<lparr>stop_id := Part (Cluster 0) 1, num_students := 34\<rparr>,
          stop_of_100\<lparr>stop_id := Part (Cluster 0) 2, num_students := 34\<rparr>,
          stop_of_100\<lparr>stop_id := Part (Cluster 0) 3, num_students := 32\<rparr>]"
  by (simp add: split_row_def stop_of_100_def py_ceil_div_eq py_range_def sub_stop_def
      upto_rec1 Let_def)

text \<open>
  C4. The claim: a stop of demand 100 with bus capacity 40 becomes exactly 3 sibling stops
  with demands 40, 40 and 20. The code does not produce these demands: it spreads the
  riders evenly, \<open>ceil(100 / 3) = 34\<close> for each sibling but the last.
\<close>

theorem split_100_by_40_not_40_40_20:
  "map_sum id (map num_students) (split_large_stops [stop_of_100] 40) \<noteq> Inr [40, 40, 20]"
  by (simp add: split_large_stops_def split_row_100_40)

text \<open>
  C4, as amended: a stop of demand 100 with bus capacity 40 becomes exactly 3 sibling stops,
  with demands 34, 34 and 32.
\<close>

theorem split_100_by_40_is_34_34_32:
  "map_sum id (map num_students) (split_large_stops [stop_of_100] 40) = Inr [34, 34, 32]"
  by (simp add: split_large_stops_def split_row_100_40)

text \<open>
  C5. The claim: after \<open>split_large_stops\<close> every rider is in the student set of exactly
  one stop. A sibling is a copy of the whole row, so each sibling of a split stop lists
  every rider of the original stop: with capacity 2, the stop of the three riders S1, S2,
  S3 becomes two siblings (of 2 and 1 riders), and both list all three.
\<close>

theorem split_keeps_all_students_on_every_sibling:
  "map_sum id (map (\<lambda>s. (num_students s, student_ids s)))
       (split_large_stops [school_stop, stop_of_3] 2) =
     Inr [(0, []), (2, [''S1'', ''S2'', ''S3'']), (1, [''S1'', ''S2'', ''S3''])]"
  by (simp add: split_large_stops_def split_row_def school_stop_def stop_of_3_def
      py_ceil_div_eq py_range_def sub_stop_def upto_rec1 Let_def)

lemma map_upto_last:
  assumes "1 \<le> (n::int)"
  shows "map (\<lambda>i. if i = n - 1 then a else b) [0..n - 1] = replicate (nat (n - 1)) b @ [a]"
proof -
  have split: "[0..n - 1] = [0..n - 1 - 1] @ [n - 1]"
    using assms by (intro upto_rec2) simp
  have "map (\<lambda>i. if i = n - 1 then a else b) [0..n - 1 - 1] = map (\<lambda>i. b) [0..n - 1 - 1]"
    by (rule map_cong) auto
  also have "\<dots> = replicate (nat (n - 1)) b"
    by (simp add: map_replicate_const)
  finally show ?thesis
    by (subst split) simp
qed

lemma ceil_div_ge2:
  assumes "0 < c" "c < (d::int)"
  shows "2 \<le> \<lceil>real_of_int d / real_of_int c\<rceil>"
proof -
  have "1 < real_of_int d / real_of_int c" using assms by simp
  then have "1 < \<lceil>real_of_int d / real_of_int c\<rceil>" by (simp add: less_ceiling_iff)
  then show ?thesis by simp
qed

lemma per_le_capacity:
  assumes "0 < c" "c < (d::int)" and n: "n = \<lceil>real_of_int d / real_of_int c\<rceil>"
  shows "\<lceil>real_of_int d / real_of_int n\<rceil> \<le> c"
proof -
  have n2: "2 \<le> n" using ceil_div_ge2[OF assms(1,2)] n by simp
  have "real_of_int d / real_of_int c \<le> real_of_int n"
    unfolding n by (rule le_of_int_ceiling)
  then have "real_of_int d \<le> real_of_int n * real_of_int c"
    using assms(1) by (simp add: pos_divide_le_eq)
  then have "real_of_int d / real_of_int n \<le> real_of_int c"
    using n2 by (simp add: pos_divide_le_eq mult.commute)
  then show ?thesis by (simp add: ceiling_le_iff)
qed

lemma remainder_le_per:
  assumes "1 \<le> (n::int)"
  shows "d - \<lceil>real_of_int d / real_of_int n\<rceil> * (n - 1) \<le> \<lceil>real_of_int d / real_of_int n\<rceil>"
proof -
  define p where "p = \<lceil>real_of_int d / real_of_int n\<rceil>"
  have "real_of_int d / real_of_int n \<le> real_of_int p"
    unfolding p_def by (rule le_of_int_ceiling)
  then have "real_of_int d \<le> real_of_int p * real_of_int n"
    using assms by (simp add: pos_divide_le_eq)
  then have "real_of_int d \<le> real_of_int (p * n)" by simp
  then have "d \<le> p * n" by (simp only: of_int_le_iff)
  then show ?thesis unfolding p_def[symmetric] by (simp add: algebra_simps)
qed


lemma split_row_small:
  "num_students row \<le> bus_capacity \<Longrightarrow> split_row row bus_capacity = Inr [row]"
  by (simp add: split_row_def)

lemma ceil_div_le_dividend:
  assumes "0 < c" "0 \<le> (d::int)"
  shows "\<lceil>real_of_int d / real_of_int c\<rceil> \<le> d"
proof -
  have "1 \<le> real_of_int c" using assms(1) by simp
  then have "real_of_int d / real_of_int c \<le> real_of_int d / 1"
    using assms(2) by (intro divide_left_mono) simp_all
  then show ?thesis by (simp add: ceiling_le_iff)
qed

lemma split_row_large:
  assumes "0 < bus_capacity" "bus_capacity < num_students row" "num_students row < 2 ^ 53"
  shows "split_row row bus_capacity =
           Inr (map (sub_stop row (num_students row)
                      \<lceil>real_of_int (num_students row) / real_of_int bus_capacity\<rceil>
                      \<lceil>real_of_int (num_students row) /
                        real_of_int \<lceil>real_of_int (num_students row) / real_of_int bus_capacity\<rceil>\<rceil>)
                  (py_range \<lceil>real_of_int (num_students row) / real_of_int bus_capacity\<rceil>))"
proof -
  define d where "d = num_students row"
  define n where "n = \<lceil>real_of_int d / real_of_int bus_capacity\<rceil>"
  have d: "bus_capacity < d" "0 \<le> d" "d < 2 ^ 53" using assms by (simp_all add: d_def)
  have n2: "2 \<le> n" unfolding n_def using assms(1) d(1) by (rule ceil_div_ge2)
  have nd: "n \<le> d" unfolding n_def using assms(1) d(2) by (rule ceil_div_le_dividend)
  have first: "py_ceil_div d bus_capacity = Inr n"
    unfolding n_def using assms(1) d by (intro py_ceil_div_exact) simp_all
  have second: "py_ceil_div d n = Inr \<lceil>real_of_int d / real_of_int n\<rceil>"
    using n2 nd d by (intro py_ceil_div_exact) simp_all
  have "split_row row bus_capacity =
          Inr (map (sub_stop row d n \<lceil>real_of_int d / real_of_int n\<rceil>) (py_range n))"
    using d(1) by (simp add: split_row_def Let_def d_def[symmetric] first second)
  then show ?thesis by (simp add: d_def n_def)
qed

lemma sub_stops_demands:
  assumes "1 \<le> n"
  shows "map num_students (map (sub_stop row d n per) (py_range n)) =
           replicate (nat (n - 1)) per @ [d - per * (n - 1)]"
proof -
  have "map num_students (map (sub_stop row d n per) (py_range n)) =
          map (\<lambda>i. if i = n - 1 then d - per * (n - 1) else per) [0..n - 1]"
    by (simp add: py_range_def sub_stop_def comp_def)
  then show ?thesis using map_upto_last[OF assms] by simp
qed

lemma sub_stops_coords:
  "list_all (\<lambda>s. latitude s = latitude row \<and> longitude s = longitude row)
     (map (sub_stop row d n per) (py_range n))"
  by (simp add: list_all_iff sub_stop_def)

lemma split_loop_concat:
  assumes "list_all (\<lambda>row. split_row row bus_capacity = Inr (f row)) rows"
  shows "split_loop rows bus_capacity new_stops = Inr (new_stops @ concat (map f rows))"
  using assms by (induction rows arbitrary: new_stops) simp_all


lemma split_row_spec:
  assumes cap: "0 < bus_capacity" and fits: "num_students row < 2 ^ 53"
  shows "\<exists>siblings. split_row row bus_capacity = Inr siblings \<and>
     (let demand = num_students row;
          n = \<lceil>real_of_int demand / real_of_int bus_capacity\<rceil>;
          per = \<lceil>real_of_int demand / real_of_int n\<rceil>
      in if demand \<le> bus_capacity then siblings = [row]
         else int (length siblings) = n \<and>
              map num_students siblings = replicate (nat (n - 1)) per @ [demand - per * (n - 1)] \<and>
              list_all (\<lambda>s. latitude s = latitude row \<and> longitude s = longitude row) siblings \<and>
              sum_list (map num_students siblings) = demand) \<and>
     list_all (\<lambda>s. num_students s \<le> bus_capacity) siblings"
proof (cases "num_students row \<le> bus_capacity")
  case True
  then show ?thesis by (simp add: split_row_small)
next
  case False
  define d where "d = num_students row"
  define n where "n = \<lceil>real_of_int d / real_of_int bus_capacity\<rceil>"
  define per where "per = \<lceil>real_of_int d / real_of_int n\<rceil>"
  define sibs where "sibs = map (sub_stop row d n per) (py_range n)"
  have big: "bus_capacity < d" using False by (simp add: d_def)
  have n2: "2 \<le> n" unfolding n_def using cap big by (rule ceil_div_ge2)
  have row: "split_row row bus_capacity = Inr sibs"
    using split_row_large[OF cap big[unfolded d_def] fits]
    by (simp add: sibs_def per_def n_def d_def)
  have len: "int (length sibs) = n"
    using n2 by (simp add: sibs_def py_range_def)
  have dem: "map num_students sibs = replicate (nat (n - 1)) per @ [d - per * (n - 1)]"
    unfolding sibs_def using n2 by (intro sub_stops_demands) simp
  have crd: "list_all (\<lambda>s. latitude s = latitude row \<and> longitude s = longitude row) sibs"
    unfolding sibs_def by (rule sub_stops_coords)
  have tot: "sum_list (map num_students sibs) = d"
    using n2 by (simp add: dem sum_list_replicate algebra_simps)
  have per_le: "per \<le> bus_capacity"
    unfolding per_def using cap big n_def by (rule per_le_capacity)
  have "d - per * (n - 1) \<le> per"
    unfolding per_def using n2 by (intro remainder_le_per) simp
  with per_le have "\<forall>x\<in>set (map num_students sibs). x \<le> bus_capacity"
    unfolding dem by auto
  then have bound: "list_all (\<lambda>s. num_students s \<le> bus_capacity) sibs"
    by (simp add: list_all_iff)
  show ?thesis
    using False row len dem crd tot bound
    by (simp add: Let_def d_def[symmetric] n_def[symmetric] per_def[symmetric])
qed

text \<open>
  C6. The claim: every stop whose demand exceeds the capacity is replaced by
  \<open>ceil(demand / capacity)\<close> siblings, and no stop of the output has a demand over the
  capacity. The code takes the ceiling of the float \<open>demand / capacity\<close>: for the demand
  \<open>10^17 + 1\<close> and the capacity \<open>10^17\<close> the float quotient is 1.0, so the stop becomes a
  single sibling that keeps the whole demand, above the capacity.
\<close>

theorem split_rounds_quotient_to_one_sibling:
  "map_sum id (map num_students) (split_large_stops [stop_of_1e17_plus_1] 100000000000000000)
     = Inr [100000000000000001]"
  by (simp add: split_large_stops_def split_row_def stop_of_1e17_plus_1_def Let_def
      py_ceil_div_just_above_one py_ceil_div_1e17_plus_1 py_range_def sub_stop_def)

text \<open>
  C6, as amended: with a positive capacity and every demand below \<open>2^53\<close> (where the float
  quotients are exact enough), \<open>split_large_stops\<close> returns, row by row: the row itself when
  its demand is within the capacity; otherwise \<open>n = ceil(demand / capacity)\<close> siblings at the
  row's coordinate, each of demand \<open>ceil(demand / n)\<close> but the last, which has the rest, so
  that the siblings' demands sum to the row's demand. No stop of the output has a demand
  over the capacity.
\<close>

theorem split_large_stops_siblings:
  assumes "0 < bus_capacity"
      and "list_all (\<lambda>row. num_students row < 2 ^ 53) stop_df"
  shows "\<exists>parts. split_large_stops stop_df bus_capacity = Inr (concat parts) \<and>
     length parts = length stop_df \<and>
     (\<forall>k<length stop_df.
        let row = stop_df ! k; demand = num_students row; siblings = parts ! k;
            n = \<lceil>real_of_int demand / real_of_int bus_capacity\<rceil>;
            per = \<lceil>real_of_int demand / real_of_int n\<rceil>
        in if demand \<le> bus_capacity then siblings = [row]
           else int (length siblings) = n \<and>
                map num_students siblings = replicate (nat (n - 1)) per @ [demand - per * (n - 1)] \<and>
                list_all (\<lambda>s. latitude s = latitude row \<and> longitude s = longitude row) siblings \<and>
                sum_list (map num_students siblings) = demand) \<and>
     list_all (\<lambda>s. num_students s \<le> bus_capacity) (concat parts)"
proof -
  define f where "f = (\<lambda>row. case split_row row bus_capacity of Inr sibs \<Rightarrow> sibs | Inl e \<Rightarrow> [])"
  have fits: "num_students row < 2 ^ 53" if "row \<in> set stop_df" for row
    using assms(2) that by (simp add: list_all_iff)
  have each: "split_row row bus_capacity = Inr (f row)" if "row \<in> set stop_df" for row
    using split_row_spec[OF assms(1) fits[OF that]] by (auto simp: f_def)
  have "list_all (\<lambda>row. split_row row bus_capacity = Inr (f row)) stop_df"
    using each by (simp add: list_all_iff)
  then have out: "split_large_stops stop_df bus_capacity = Inr (concat (map f stop_df))"
    by (simp add: split_large_stops_def split_loop_concat)
  have "list_all (\<lambda>s. num_students s \<le> bus_capacity) (f row)" if "row \<in> set stop_df" for row
    using split_row_spec[OF assms(1) fits[OF that]] each[OF that] by auto
  then have small: "list_all (\<lambda>s. num_students s \<le> bus_capacity) (concat (map f stop_df))"
    by (auto simp: list_all_iff)
  have sib: "let row = stop_df ! k; demand = num_students row; siblings = map f stop_df ! k;
            n = \<lceil>real_of_int demand / real_of_int bus_capacity\<rceil>;
            per = \<lceil>real_of_int demand / real_of_int n\<rceil>
        in if demand \<le> bus_capacity then siblings = [row]
           else int (length siblings) = n \<and>
                map num_students siblings = replicate (nat (n - 1)) per @ [demand - per * (n - 1)] \<and>
                list_all (\<lambda>s. latitude s = latitude row \<and> longitude s = longitude row) siblings \<and>
                sum_list (map num_students siblings) = demand"
    if "k < length stop_df" for k
  proof -
    have mem: "stop_df ! k \<in> set stop_df" using that by simp
    show ?thesis
      using split_row_spec[OF assms(1) fits[OF mem]] each[OF mem] that
      by (auto simp: Let_def)
  qed
  show ?thesis
    by (rule exI[of _ "map f stop_df"]) (use out small sib in simp)
qed

theorem split_large_stops_siblings_witness:
  "(0::int) < 30 \<and>
   list_all (\<lambda>row. num_students row < 2 ^ 53) [school_stop, stop_of_100] \<and>
   (\<exists>parts. split_large_stops [school_stop, stop_of_100] 30 = Inr (concat parts) \<and>
     length parts = length [school_stop, stop_of_100] \<and>
     (\<forall>k<length [school_stop, stop_of_100].
        let row = [school_stop, stop_of_100] ! k; demand = num_students row; siblings = parts ! k;
            n = \<lceil>real_of_int demand / real_of_int 30\<rceil>;
            per = \<lceil>real_of_int demand / real_of_int n\<rceil>
        in if demand \<le> 30 then siblings = [row]
           else int (length siblings) = n \<and>
                map num_students siblings = replicate (nat (n - 1)) per @ [demand - per * (n - 1)] \<and>
                list_all (\<lambda>s. latitude s = latitude row \<and> longitude s = longitude row) siblings \<and>
                sum_list (map num_students siblings) = demand) \<and>
     list_all (\<lambda>s. num_students s \<le> 30) (concat parts))"
proof -
  have cap: "(0::int) < 30" by simp
  have fits: "list_all (\<lambda>row. num_students row < 2 ^ 53) [school_stop, stop_of_100]"
    by (simp add: school_stop_def stop_of_100_def)
  show ?thesis
    using cap fits split_large_stops_siblings [OF cap fits] by (intro conjI)
qed

section \<open>Properties of the fleet search\<close>

lemma fleet_too_small_fails:
  assumes "py_ceil_div (sum_list demands) capacity = Inr theoretical_min_buses"
      and "max_buses < theoretical_min_buses"
  shows "solve_vrp_with_fleet_limit solver dist_matrix demands (capacity # caps) depot_index
           max_buses min_buses_arg =
         Inr \<lparr>routes = [], vrp_metrics = None,
              printed = [WarningNeedAtLeast theoretical_min_buses max_buses, ConsiderIncreasing,
                         ProceedingWith max_buses, OptimizationFailed]\<rparr>"
  using assms by (simp add: solve_vrp_with_fleet_limit_def Let_def)

text \<open>
  C1. The claim: when the theoretical minimum fleet exceeds the maximum fleet, the function
  proceeds with the maximum fleet and returns a plan. With demands 0 and 100, capacity 40
  and \<open>max_buses = 1\<close> the minimum is 3: the warning is printed, but \<open>range(3, 2)\<close> is empty,
  so no fleet size is attempted and, whatever the solver is, the empty failure result is
  returned.
\<close>

theorem fleet_limit_below_minimum_returns_failure:
  "solve_vrp_with_fleet_limit solver dist_matrix [0, 100] [40] 0 1 None =
     Inr \<lparr>routes = [], vrp_metrics = None,
          printed = [WarningNeedAtLeast 3 1, ConsiderIncreasing, ProceedingWith 1,
                     OptimizationFailed]\<rparr>"
  by (rule fleet_too_small_fails) (simp_all add: py_ceil_div_eq)

text \<open>
  C2. The claim: when some fleet size of the range yields a feasible solution, a non-empty
  route set is returned. With \<open>max_buses = 1\<close> the only attempt finds a solution that uses
  one bus; \<open>best_num_buses\<close> starts at \<open>max_buses\<close> and the comparison \<open>1 < 1\<close> fails, so
  the solution is dropped and the empty failure result is returned.
\<close>

theorem full_fleet_solution_is_discarded:
  "solve_vrp_with_fleet_limit one_bus_solver [[0, 1], [1, 0]] [0, 10] [40] 0 1 (Some 1) =
     Inr \<lparr>routes = [], vrp_metrics = None,
          printed = [AttemptingWith 1, FoundSolutionWith 1, OptimizationFailed]\<rparr>"
  by (simp add: solve_vrp_with_fleet_limit_def py_ceil_div_eq one_bus_solver_def upto_rec1)

section \<open>Properties of the arc cost\<close>







section \<open>Properties of the cluster repair\<close>

lemma cluster_map_key:
  assumes "sid \<in> set (map assigned_stop_id df)"
  shows "\<exists>i. cluster_map df sid = Some i \<and> i < length (group_keys df) \<and> group_keys df ! i = sid"
proof -
  have d: "distinct (group_keys df)" by (simp add: group_keys_def)
  have "sid \<in> set (group_keys df)" using assms by (simp add: group_keys_def)
  then obtain i where i: "i < length (group_keys df)" "group_keys df ! i = sid"
    by (auto simp: in_set_conv_nth)
  have "map_of (zip (group_keys df) [0..<length (group_keys df)]) (group_keys df ! i)
          = Some ([0..<length (group_keys df)] ! i)"
    using d i(1) by (intro map_of_zip_nth) simp_all
  then show ?thesis using i by (auto simp: cluster_map_def)
qed

lemma stop_centers_lookup:
  assumes "r \<in> set df"
  shows "stop_centers df ! the (cluster_map df (assigned_stop_id r))
           = centre (group_of df (assigned_stop_id r))"
proof -
  obtain i where "cluster_map df (assigned_stop_id r) = Some i" "i < length (group_keys df)"
      "group_keys df ! i = assigned_stop_id r"
    using cluster_map_key[of "assigned_stop_id r" df] assms by auto
  then show ?thesis by (simp add: stop_centers_def)
qed

lemma with_distances_eq:
  "with_distances df = map (\<lambda>r. r\<lparr>distance_to_stop_km := dist_to_centre df r\<rparr>) df"
  unfolding with_distances_def dist_to_centre_def
  by (rule map_cong) (simp_all add: stop_centers_lookup)








lemma haversine_same_meridian:
  assumes "0 \<le> a - b" "a - b \<le> pi"
  shows "haversine_distances (a, l) (b, l) = a - b"
proof -
  have rng: "- (pi / 2) \<le> (a - b) / 2" "(a - b) / 2 \<le> pi / 2"
    using assms pi_gt_zero by auto
  have "0 \<le> sin ((a - b) / 2)"
    using assms by (intro sin_ge_zero) auto
  then have "sqrt ((sin ((a - b) / 2))\<^sup>2) = sin ((a - b) / 2)" by simp
  then have "haversine_distances (a, l) (b, l) = 2 * arcsin (sin ((a - b) / 2))"
    by (simp add: haversine_distances_def)
  also have "\<dots> = a - b" using rng by (simp add: arcsin_sin)
  finally show ?thesis .
qed

lemma half_neg: "(a - b) / 2 = - ((b - a) / 2)" for a b :: real
  by (simp add: diff_divide_distrib)

lemma sin_sq_swap: "(sin ((a - b) / 2))\<^sup>2 = (sin ((b - a) / 2))\<^sup>2" for a b :: real
proof -
  have "sin ((a - b) / 2) = - sin ((b - a) / 2)"
    by (simp only: half_neg[of a b] sin_minus)
  then show ?thesis by (simp only: power2_minus)
qed

lemma haversine_sym: "haversine_distances x y = haversine_distances y x"
  unfolding haversine_distances_def
  by (simp only: sin_sq_swap[of "fst x" "fst y"] sin_sq_swap[of "snd x" "snd y"] mult.commute[of "cos (fst x)"])











lemma two_far_riders_centre: "centre (group_of two_far_riders 0) = (1 / 2, 0)"
  by (simp add: two_far_riders_def group_of_def centre_def mean_def)

lemma radians_pts:
  "radians_pt (0, 0) = (0, 0)"
  "radians_pt (1 / 2, 0) = (pi / 360, 0)"
  "radians_pt (1, 0) = (pi / 180, 0)"
  by (simp_all add: radians_pt_def radians_def)

lemma half_degree: "haversine_distances (pi / 360, 0) (0, 0) = pi / 360"
proof -
  have "haversine_distances (pi / 360, 0) (0, 0) = pi / 360 - 0"
    by (rule haversine_same_meridian) (use pi_gt_zero in auto)
  then show ?thesis by (simp only: diff_zero)
qed

lemma half_degree': "haversine_distances (pi / 180, 0) (pi / 360, 0) = pi / 360"
proof -
  have "haversine_distances (pi / 180, 0) (pi / 360, 0) = pi / 180 - pi / 360"
    by (rule haversine_same_meridian) (use pi_gt_zero in auto)
  also have "\<dots> = pi / 360" by simp
  finally show ?thesis .
qed

lemma two_far_riders_dist:
  "r \<in> set two_far_riders \<Longrightarrow> dist_to_centre two_far_riders r = pi / 360 * 6371"
proof -
  assume "r \<in> set two_far_riders"
  then consider "coords r = (0, 0)" "assigned_stop_id r = 0"
    | "coords r = (1, 0)" "assigned_stop_id r = 0"
    by (auto simp: two_far_riders_def coords_def)
  then show ?thesis
  proof cases
    case 1
    have "haversine_distances (0, 0) (pi / 360, 0) = pi / 360"
      using half_degree by (simp only: haversine_sym[of "(0, 0)"])
    then show ?thesis
      by (simp only: dist_to_centre_def 1 two_far_riders_centre radians_pts)
  next
    case 2
    show ?thesis
      by (simp only: dist_to_centre_def 2 two_far_riders_centre radians_pts half_degree')
  qed
qed


lemma with_distances_two_far_riders:
  "with_distances two_far_riders =
     map (\<lambda>r. r\<lparr>distance_to_stop_km := pi / 360 * 6371\<rparr>) two_far_riders"
  unfolding with_distances_eq
  by (rule map_cong) (simp_all only: two_far_riders_dist)

lemma with_distances_two_far_riders_list:
  "with_distances two_far_riders =
     [\<lparr>StudentID = ''S1'', Latitude = 0, Longitude = 0, assigned_stop_id = 0,
       distance_to_stop_km = pi / 360 * 6371\<rparr>,
      \<lparr>StudentID = ''S2'', Latitude = 1, Longitude = 0, assigned_stop_id = 0,
       distance_to_stop_km = pi / 360 * 6371\<rparr>]"
  unfolding with_distances_two_far_riders by (simp add: two_far_riders_def)

lemma far_apart: "2 < pi / 360 * 6371"
  using pi_ge_two by simp

lemma two_far_riders_problematic:
  "problematic_clusters (with_distances two_far_riders) 1 = [0]"
  unfolding with_distances_two_far_riders_list
  using far_apart
  by (simp add: problematic_clusters_def group_keys_def group_max_distance_def group_of_def)

lemma two_far_riders_split_raises:
  "split_clusters kmeans 1 [0] max_existing_id (with_distances two_far_riders) = Inl ValueError"
proof -
  have "2 < \<lceil>pi / 360 * 6371\<rceil>"
    using far_apart by (simp add: less_ceiling_iff)
  then show ?thesis
    unfolding with_distances_two_far_riders_list
    by (simp add: group_of_def num_subclusters_of_def KMeans_fit_predict_def Let_def)
qed

text \<open>
  C7. The claim: the repair loop ends without error on every dataframe. Two riders one
  degree of latitude apart in one cluster are each about 55.6 km from the centroid; with
  a maximum of 1 km the cluster is to be split into \<open>max(2, ceil(55.6 / 1)) = 56\<close>
  sub-clusters, and KMeans raises ValueError on 2 samples for 56 clusters, whatever labels
  it would compute.
\<close>

theorem enforce_max_distance_raises_on_two_far_riders:
  "enforce_max_distance kmeans two_far_riders 1 = Some (Inl ValueError)"
proof -
  have "two_far_riders \<noteq> []" by (simp add: two_far_riders_def)
  then have "enforce_loop kmeans 1 two_far_riders =
      (case split_clusters kmeans 1 [0] (max_stop_id (with_distances two_far_riders) + 1)
              (with_distances two_far_riders) of
         Inl e \<Rightarrow> Some (Inl e)
       | Inr df2 \<Rightarrow> enforce_loop kmeans 1 df2)"
    by (subst enforce_loop.simps) (simp add: two_far_riders_problematic del: split_clusters.simps)
  then show ?thesis
    by (simp only: enforce_max_distance_def two_far_riders_split_raises sum.case)
qed

section \<open>Properties of the distance matrix\<close>

text \<open>
  C3. The claim: a pair of stops with no path between them holds the sentinel 1000000.
  The matrix starts as zeros and only the cells of reachable targets are written, so the
  cell of an unreachable pair stays 0; \<open>nan_to_num\<close> finds nothing to replace.
\<close>

theorem unreachable_pair_has_distance_zero:
  "build_distance_matrix two_islands [1, 2] = [[0, 0], [0, 0]]"
  by (simp add: build_distance_matrix_def matrix_row_def
      single_source_dijkstra_path_length_def two_islands_def py_int_def numeral_2_eq_2)

text \<open>
  The rounds of relaxation compute least walk lengths: what a round returns is the length
  of a walk, and it is at most the length of every walk of that many edges.
\<close>

lemma opt_min_cases: "opt_min a b = Some x \<Longrightarrow> a = Some x \<or> b = Some x"
  by (cases a; cases b) (simp_all add: min_def split: if_splits)

lemma opt_min_le_right: "\<exists>x. opt_min a (Some y) = Some x \<and> x \<le> y"
  by (cases a) simp_all

lemma opt_min_le_left: "\<exists>x. opt_min (Some y) b = Some x \<and> x \<le> y"
  by (cases b) simp_all

lemma relax_keeps:
  assumes "d t = Some y"
  shows "\<exists>x. relax A d t = Some x \<and> x \<le> y"
proof (induction A)
  case Nil
  show ?case using assms by simp
next
  case (Cons a A)
  obtain u v w where a: "a = (u, v, w)" by (cases a)
  obtain x where x: "relax A d t = Some x" "x \<le> y" using Cons by blast
  show ?case
  proof (cases "v = t")
    case True
    obtain z where "opt_min (map_option (\<lambda>x. x + w) (d u)) (Some x) = Some z" "z \<le> x"
      using opt_min_le_right by blast
    then show ?thesis using True x a by simp
  next
    case False
    then show ?thesis using x a by simp
  qed
qed

lemma relax_arc:
  assumes "d u = Some y"
  shows "(u, t, w) \<in> set A \<Longrightarrow> \<exists>x. relax A d t = Some x \<and> x \<le> y + w"
proof (induction A)
  case Nil
  then show ?case by simp
next
  case (Cons a A)
  obtain u' v' w' where a: "a = (u', v', w')" by (cases a)
  show ?case
  proof (cases "a = (u, t, w)")
    case True
    obtain z where "opt_min (Some (y + w)) (relax A d t) = Some z" "z \<le> y + w"
      using opt_min_le_left by blast
    then show ?thesis using True assms by simp
  next
    case False
    then have "(u, t, w) \<in> set A" using Cons.prems by simp
    then obtain x where x: "relax A d t = Some x" "x \<le> y + w" using Cons.IH by blast
    show ?thesis
    proof (cases "v' = t")
      case True
      obtain z where "opt_min (map_option (\<lambda>x. x + w') (d u')) (Some x) = Some z" "z \<le> x"
        using opt_min_le_right by blast
      then show ?thesis using True x a by simp
    next
      case False
      then show ?thesis using x a by simp
    qed
  qed
qed

lemma relax_sound:
  "relax A d t = Some x \<Longrightarrow>
     d t = Some x \<or> (\<exists>u w y. (u, t, w) \<in> set A \<and> d u = Some y \<and> x = y + w)"
proof (induction A)
  case Nil
  then show ?case by simp
next
  case (Cons a A)
  obtain u' v' w' where a: "a = (u', v', w')" by (cases a)
  show ?case
  proof (cases "v' = t")
    case True
    then have "opt_min (map_option (\<lambda>x. x + w') (d u')) (relax A d t) = Some x"
      using Cons.prems a by simp
    then consider "map_option (\<lambda>x. x + w') (d u') = Some x" | "relax A d t = Some x"
      using opt_min_cases by blast
    then show ?thesis
    proof cases
      case 1
      then obtain y where "d u' = Some y" "x = y + w'" by (cases "d u'") simp_all
      then have "(u', t, w') \<in> set (a # A) \<and> d u' = Some y \<and> x = y + w'"
        using True a by simp
      then show ?thesis by blast
    next
      case 2
      then have "d t = Some x \<or> (\<exists>u w y. (u, t, w) \<in> set A \<and> d u = Some y \<and> x = y + w)"
        by (rule Cons.IH)
      then show ?thesis by auto
    qed
  next
    case False
    then have "relax A d t = Some x" using Cons.prems a by simp
    then have "d t = Some x \<or> (\<exists>u w y. (u, t, w) \<in> set A \<and> d u = Some y \<and> x = y + w)"
      by (rule Cons.IH)
    then show ?thesis by auto
  qed
qed

lemma sp_rounds_sound: "sp_rounds A s k t = Some x \<Longrightarrow> walk A k s t x"
proof (induction k arbitrary: t x)
  case 0
  then show ?case by (auto split: if_splits intro: walk_here)
next
  case (Suc k)
  then have "relax A (sp_rounds A s k) t = Some x" by simp
  then consider "sp_rounds A s k t = Some x"
    | u w y where "(u, t, w) \<in> set A" "sp_rounds A s k u = Some y" "x = y + w"
    using relax_sound[where d = "sp_rounds A s k"] by blast
  then show ?case
  proof cases
    case 1
    then have "walk A k s t x" by (rule Suc.IH)
    then show ?thesis by (rule walk_wait)
  next
    case 2
    from 2(2) have "walk A k s u y" by (rule Suc.IH)
    then have "walk A (Suc k) s t (y + w)" using 2(1) by (rule walk_step)
    then show ?thesis using 2(3) by simp
  qed
qed

lemma sp_rounds_self: "\<exists>x. sp_rounds A s k s = Some x \<and> x \<le> 0"
proof (induction k)
  case 0
  then show ?case by simp
next
  case (Suc k)
  then obtain y where y: "sp_rounds A s k s = Some y" "y \<le> 0" by blast
  obtain x where "relax A (sp_rounds A s k) s = Some x" "x \<le> y"
    using relax_keeps[where d = "sp_rounds A s k", OF y(1)] by blast
  then show ?case using y(2) by auto
qed

lemma sp_rounds_least: "walk A k s t c \<Longrightarrow> \<exists>x. sp_rounds A s k t = Some x \<and> x \<le> c"
proof (induction rule: walk.induct)
  case (walk_here A k s)
  then show ?case by (rule sp_rounds_self)
next
  case (walk_wait A k s t c)
  then obtain y where y: "sp_rounds A s k t = Some y" "y \<le> c" by blast
  obtain x where "relax A (sp_rounds A s k) t = Some x" "x \<le> y"
    using relax_keeps[where d = "sp_rounds A s k", OF y(1)] by blast
  then show ?case using y(2) by auto
next
  case (walk_step A k s u c t w)
  then obtain y where y: "sp_rounds A s k u = Some y" "y \<le> c" by blast
  obtain x where "relax A (sp_rounds A s k) t = Some x" "x \<le> y + w"
    using relax_arc[where d = "sp_rounds A s k", OF y(1) walk_step.hyps(2)] by blast
  then show ?case using y(2) by auto
qed








text \<open>
  The model returns what the library call promises: a node has no entry exactly when no
  walk leads to it, and otherwise its entry is the length of a walk and at most the length
  of every walk, of any number of edges.
\<close>

lemma walk_mono: "walk A k s t c \<Longrightarrow> k \<le> k' \<Longrightarrow> walk A k' s t c"
proof (induction k' arbitrary: k)
  case 0
  then show ?case by simp
next
  case (Suc k')
  show ?case
  proof (cases "k = Suc k'")
    case True
    then show ?thesis using Suc.prems by simp
  next
    case False
    then have "k \<le> k'" using Suc.prems by simp
    then have "walk A k' s t c" using Suc.prems(1) Suc.IH by blast
    then show ?thesis by (rule walk_wait)
  qed
qed

lemma walk_trail: "walk A k s t c \<Longrightarrow> \<exists>vs. trail A s vs t c"
proof (induction rule: walk.induct)
  case (walk_here A k s)
  show ?case using trail_here by blast
next
  case (walk_wait A k s t c)
  then show ?case by blast
next
  case (walk_step A k s u c t w)
  then obtain vs where "trail A s vs u c" by blast
  then have "trail A s (vs @ [t]) t (c + w)" using walk_step.hyps(2) by (rule trail_step)
  then show ?case by blast
qed

lemma trail_walk: "trail A s vs t c \<Longrightarrow> walk A (length vs) s t c"
proof (induction rule: trail.induct)
  case (trail_here A s)
  show ?case by (simp add: walk_here)
next
  case (trail_step A s vs u c t w)
  then have "walk A (Suc (length vs)) s t (c + w)" by (simp add: walk_step)
  then show ?case by simp
qed

lemma trail_nonneg:
  "trail A s vs t c \<Longrightarrow> \<forall>u v w. (u, v, w) \<in> set A \<longrightarrow> 0 \<le> w \<Longrightarrow> 0 \<le> c"
proof (induction rule: trail.induct)
  case (trail_here A s)
  show ?case by simp
next
  case (trail_step A s vs u c t w)
  then have "0 \<le> c" and "0 \<le> w" by simp_all
  then show ?case by simp
qed

lemma trail_end: "trail A s vs t c \<Longrightarrow> t = last (s # vs)"
  by (induction rule: trail.induct) simp_all

lemma trail_vertices:
  "trail A s vs t c \<Longrightarrow> \<forall>u v w. (u, v, w) \<in> set A \<longrightarrow> u \<in> N \<and> v \<in> N \<Longrightarrow>
     vs \<noteq> [] \<Longrightarrow> set (s # vs) \<subseteq> N"
proof (induction rule: trail.induct)
  case (trail_here A s)
  then show ?case by simp
next
  case (trail_step A s vs u c t w)
  have ends: "u \<in> N" "t \<in> N" using trail_step.prems(1) trail_step.hyps(2) by blast+
  show ?case
  proof (cases "vs = []")
    case True
    then have "u = s" using trail_end[OF trail_step.hyps(1)] by simp
    then show ?thesis using True ends by simp
  next
    case False
    then have "set (s # vs) \<subseteq> N" using trail_step by blast
    then show ?thesis using ends by simp
  qed
qed

lemma trail_prefix:
  "trail A s vs t c \<Longrightarrow> \<forall>u v w. (u, v, w) \<in> set A \<longrightarrow> 0 \<le> w \<Longrightarrow> vs = xs @ ys \<Longrightarrow>
     \<exists>c1. trail A s xs (last (s # xs)) c1 \<and> c1 \<le> c"
proof (induction arbitrary: xs ys rule: trail.induct)
  case (trail_here A s)
  then have "xs = []" by simp
  then show ?case using trail.trail_here[of A s] by auto
next
  case (trail_step A s vs u c t w)
  have w: "0 \<le> w" using trail_step.prems(1) trail_step.hyps(2) by blast
  show ?case
  proof (cases "ys = []")
    case True
    then have "xs = vs @ [t]" using trail_step.prems(2) by simp
    moreover have "trail A s (vs @ [t]) t (c + w)"
      using trail_step.hyps by (rule trail.trail_step)
    ultimately show ?thesis by auto
  next
    case False
    then obtain ys' where ys: "ys = ys' @ [t]" "vs = xs @ ys'"
      using trail_step.prems(2) by (metis append_butlast_last_id append_assoc butlast_snoc last_snoc)
    then obtain c1 where "trail A s xs (last (s # xs)) c1" "c1 \<le> c"
      using trail_step.IH[OF trail_step.prems(1)] by blast
    then show ?thesis using w by (intro exI[of _ c1]) simp
  qed
qed

lemma trail_simple:
  "trail A s vs t c \<Longrightarrow> \<forall>u v w. (u, v, w) \<in> set A \<longrightarrow> 0 \<le> w \<Longrightarrow>
     \<exists>vs' c'. trail A s vs' t c' \<and> c' \<le> c \<and> distinct (s # vs')"
proof (induction rule: trail.induct)
  case (trail_here A s)
  show ?case using trail.trail_here[of A s] by (intro exI[of _ "[]"] exI[of _ 0]) simp
next
  case (trail_step A s vs u c t w)
  have w: "0 \<le> w" using trail_step.prems trail_step.hyps(2) by blast
  obtain vs' c' where p: "trail A s vs' u c'" "c' \<le> c" "distinct (s # vs')"
    using trail_step.IH[OF trail_step.prems] by blast
  have c'0: "0 \<le> c'" using p(1) trail_step.prems by (rule trail_nonneg)
  show ?case
  proof (cases "t \<in> set (s # vs')")
    case False
    have "trail A s (vs' @ [t]) t (c' + w)" using p(1) trail_step.hyps(2) by (rule trail.trail_step)
    moreover have "distinct (s # vs' @ [t])" using False p(3) by simp
    moreover have "c' + w \<le> c + w" using p(2) by simp
    ultimately show ?thesis by blast
  next
    case True
    show ?thesis
    proof (cases "t = s")
      case True
      have "trail A s [] t 0" using True trail.trail_here[of A s] by simp
      moreover have "0 \<le> c + w" using c'0 p(2) w by simp
      ultimately show ?thesis by (intro exI[of _ "[]"] exI[of _ 0]) simp
    next
      case False
      then have "t \<in> set vs'" using True by simp
      then obtain xs ys where split: "vs' = xs @ t # ys" by (meson split_list)
      then have "vs' = (xs @ [t]) @ ys" by simp
      then obtain c1 where c1: "trail A s (xs @ [t]) (last (s # xs @ [t])) c1" "c1 \<le> c'"
        using trail_prefix[OF p(1) trail_step.prems] by blast
      have "distinct (s # xs @ [t])" using p(3) split by auto
      moreover have "trail A s (xs @ [t]) t c1" using c1(1) by simp
      moreover have "c1 \<le> c + w" using c1(2) p(2) w by simp
      ultimately show ?thesis by blast
    qed
  qed
qed


lemma sp_rounds_all_walks:
  assumes ok: "graph_ok G" and w: "walk (arcs G) k s t c"
  shows "\<exists>x. sp_rounds (arcs G) s (length (nodes G)) t = Some x \<and> x \<le> c"
proof -
  have nonneg: "\<forall>u v w. (u, v, w) \<in> set (arcs G) \<longrightarrow> 0 \<le> w"
    using ok by (auto simp: graph_ok_def list_all_iff)
  have ends: "\<forall>u v w. (u, v, w) \<in> set (arcs G) \<longrightarrow> u \<in> set (nodes G) \<and> v \<in> set (nodes G)"
    using ok by (auto simp: graph_ok_def list_all_iff)
  obtain vs where "trail (arcs G) s vs t c" using walk_trail[OF w] by blast
  then obtain vs' c' where p: "trail (arcs G) s vs' t c'" "c' \<le> c" "distinct (s # vs')"
    using trail_simple[OF _ nonneg] by blast
  have short: "length vs' \<le> length (nodes G)"
  proof (cases "vs' = []")
    case True
    then show ?thesis by simp
  next
    case False
    have "set (s # vs') \<subseteq> set (nodes G)"
      using trail_vertices[OF p(1) ends False] .
    then have "card (set (s # vs')) \<le> card (set (nodes G))"
      by (intro card_mono) simp_all
    moreover have "card (set (s # vs')) = length (s # vs')"
      using p(3) by (rule distinct_card)
    moreover have "card (set (nodes G)) \<le> length (nodes G)" by (rule card_length)
    ultimately show ?thesis by simp
  qed
  have "walk (arcs G) (length vs') s t c'" using p(1) by (rule trail_walk)
  then have "walk (arcs G) (length (nodes G)) s t c'" using short by (rule walk_mono)
  then obtain x where "sp_rounds (arcs G) s (length (nodes G)) t = Some x" "x \<le> c'"
    using sp_rounds_least by blast
  then show ?thesis using p(2) by auto
qed

lemma single_source_dijkstra_path_length_least:
  assumes ok: "graph_ok G"
      and call: "single_source_dijkstra_path_length G source = Inr distances"
  shows "(distances t = None \<longleftrightarrow> (\<forall>k c. \<not> walk (arcs G) k source t c)) \<and>
         (\<forall>x. distances t = Some x \<longrightarrow>
            (\<exists>k. walk (arcs G) k source t x) \<and> (\<forall>k c. walk (arcs G) k source t c \<longrightarrow> x \<le> c))"
proof -
  have d: "distances = sp_rounds (arcs G) source (length (nodes G))"
    using call by (auto simp: single_source_dijkstra_path_length_def split: if_splits)
  have none: "distances t = None \<longleftrightarrow> (\<forall>k c. \<not> walk (arcs G) k source t c)"
  proof
    assume "distances t = None"
    then show "\<forall>k c. \<not> walk (arcs G) k source t c"
      using sp_rounds_all_walks[OF ok] d by fastforce
  next
    assume no: "\<forall>k c. \<not> walk (arcs G) k source t c"
    show "distances t = None"
    proof (cases "distances t")
      case None
      then show ?thesis .
    next
      case (Some x)
      then have "walk (arcs G) (length (nodes G)) source t x"
        using d by (simp add: sp_rounds_sound)
      then show ?thesis using no by blast
    qed
  qed
  have some: "(\<exists>k. walk (arcs G) k source t x) \<and> (\<forall>k c. walk (arcs G) k source t c \<longrightarrow> x \<le> c)"
    if "distances t = Some x" for x
  proof
    show "\<exists>k. walk (arcs G) k source t x"
      using that d sp_rounds_sound by blast
    show "\<forall>k c. walk (arcs G) k source t c \<longrightarrow> x \<le> c"
      using that d sp_rounds_all_walks[OF ok] by fastforce
  qed
  show ?thesis using none some by blast
qed







end
